theory Spec2Isabelle
  imports Complex_Main
begin

unbundle bit_operations_syntax

section \<open>The Held-Karp solver of TSP.cpp\<close>

text \<open>
  The cost matrix and the table \<open>dp\<close> are \<open>vector<vector<double>>\<close>. A \<open>double\<close> is
  modelled as a real number: rounding, infinities and NaN are not modelled. Locations
  are 0-based inside the solver. A subset of locations is the bit pattern of a
  non-negative \<open>int\<close>, here a natural number read with \<open>bit\<close>, \<open>XOR\<close> and
  \<open>push_bit\<close> (\<open>1 << i\<close> is \<open>push_bit i 1\<close>); for at most 30 locations no value
  leaves the range of a 32-bit \<open>int\<close>, and \<open>heldKarp\<close> below faults beyond that.
\<close>

type_synonym matrix = "real list list"
type_synonym table = "real list list"

text \<open>
  \<open>const int INF = numeric_limits<int>::max()\<close>, converted to \<open>double\<close> where it is
  used (the name \<open>INF\<close> itself is taken in HOL).
\<close>

definition INF_const :: real where
  "INF_const = 2147483647"

text \<open>
  The source has no error path. What it leaves undefined is a fault of the model:
  \<open>pow(2, n)\<close> not fitting \<open>int\<close>, an index outside a vector, a shift by a negative
  count, and the reconstruction loop never ending.
\<close>

datatype fault = Table_Too_Large | Index_Out_Of_Range | Negative_Shift | Non_Termination

text \<open>Lines 26 and 29: the table of \<open>2^n\<close> rows of \<open>n\<close> cells, all \<open>INF\<close>, and the base cell.\<close>

definition init_table :: "nat \<Rightarrow> nat \<Rightarrow> table" where
  "init_table n s =
     (let dp = replicate (2 ^ n) (replicate n INF_const)
      in dp[push_bit s 1 := (dp ! push_bit s 1)[s := 0]])"

text \<open>Lines 39 and 42: one relaxation of \<open>dp[subset][i]\<close> through \<open>j\<close>; \<open>subs\<close> is the source's \<open>subset\<close>.\<close>

definition relax :: "matrix \<Rightarrow> nat \<Rightarrow> nat \<Rightarrow> table \<Rightarrow> nat \<Rightarrow> table" where
  "relax graph subs i dp j =
     (if \<not> bit subs j \<or> i = j then dp
      else dp[subs := (dp ! subs)
                [i := min (dp ! subs ! i)
                          (dp ! (subs XOR push_bit i 1) ! j + graph ! j ! i)]])"

text \<open>Lines 35 to 43: the loop over \<open>j\<close> for one \<open>i\<close>.\<close>

definition relax_node :: "matrix \<Rightarrow> nat \<Rightarrow> nat \<Rightarrow> table \<Rightarrow> nat \<Rightarrow> table" where
  "relax_node graph n subs dp i =
     (if \<not> bit subs i then dp
      else fold (\<lambda>j dp. relax graph subs i dp j) [0..<n] dp)"

text \<open>Lines 33 to 44: the loop over \<open>i\<close> for one subset.\<close>

definition relax_subset :: "matrix \<Rightarrow> nat \<Rightarrow> table \<Rightarrow> nat \<Rightarrow> table" where
  "relax_subset graph n dp subs = fold (\<lambda>i dp. relax_node graph n subs dp i) [0..<n] dp"

text \<open>Lines 32 to 45, run over the subsets \<open>0, ..., k - 1\<close>; the whole pass has \<open>k = 2^n\<close>.\<close>

definition forward_upto :: "matrix \<Rightarrow> nat \<Rightarrow> nat \<Rightarrow> table \<Rightarrow> table" where
  "forward_upto graph n k dp = fold (\<lambda>subs dp. relax_subset graph n dp subs) [0..<k] dp"

definition forward_pass :: "matrix \<Rightarrow> nat \<Rightarrow> table \<Rightarrow> table" where
  "forward_pass graph n dp = forward_upto graph n (2 ^ n) dp"

text \<open>The table after line 45.\<close>

definition dp_table :: "matrix \<Rightarrow> nat \<Rightarrow> table" where
  "dp_table graph s = forward_pass graph (length graph) (init_table (length graph) s)"

text \<open>Lines 48 to 57: the cheapest way to close the tour; the pair is \<open>(minDistance, lastNode)\<close>.\<close>

definition closing_step :: "matrix \<Rightarrow> table \<Rightarrow> nat \<Rightarrow> nat \<Rightarrow> nat \<Rightarrow> real \<times> int \<Rightarrow> real \<times> int" where
  "closing_step graph dp subsetCount s i acc =
     (if i = s then acc
      else let cost = dp ! (subsetCount - 1) ! i + graph ! i ! s
           in if cost < fst acc then (cost, int i) else acc)"

definition closing :: "matrix \<Rightarrow> table \<Rightarrow> nat \<Rightarrow> nat \<Rightarrow> real \<times> int" where
  "closing graph dp n s = fold (closing_step graph dp (2 ^ n) s) [0..<n] (INF_const, - 1)"

text \<open>Lines 70 to 77: the first predecessor in increasing index order, if there is one.\<close>

definition find_pred :: "matrix \<Rightarrow> table \<Rightarrow> nat \<Rightarrow> nat \<Rightarrow> nat \<Rightarrow> nat option" where
  "find_pred graph dp n subs currentNode =
     find (\<lambda>i. \<not> (i = currentNode \<or> \<not> bit subs i) \<and>
               dp ! subs ! currentNode
                 = dp ! (subs XOR push_bit currentNode 1) ! i + graph ! i ! currentNode)
          [0..<n]"

text \<open>
  Lines 67 to 78: the reconstruction loop. When no predecessor matches, the source
  leaves \<open>currentNode\<close> and \<open>subset\<close> as they are and goes round again, for ever;
  \<open>None\<close> is that.
\<close>

partial_function (option) backtrack ::
    "matrix \<Rightarrow> table \<Rightarrow> nat \<Rightarrow> nat \<Rightarrow> nat \<Rightarrow> nat \<Rightarrow> int list \<Rightarrow> int list option" where
  "backtrack graph dp n s subs currentNode path =
     (if currentNode = s then Some path
      else let path' = path @ [int currentNode + 1];
               prevSubset = subs XOR push_bit currentNode 1
           in case find_pred graph dp n subs currentNode of
                Some i \<Rightarrow> backtrack graph dp n s prevSubset i path'
              | None \<Rightarrow> backtrack graph dp n s subs currentNode path')"

declare backtrack.simps [code]

text \<open>
  \<open>vector::operator[]\<close> is unchecked. The cells of \<open>graph\<close> that the solver reads are
  \<open>graph[j][i]\<close> for \<open>i \<noteq> j\<close> below \<open>n\<close> (all of them are read for the full subset), so
  a read outside a row happens exactly when this fails.
\<close>

definition rows_cover :: "matrix \<Rightarrow> bool" where
  "rows_cover graph =
     (let n = length graph
      in list_all (\<lambda>j. list_all (\<lambda>i. i = j \<or> i < length (graph ! j)) [0..<n]) [0..<n])"

text \<open>
  \<open>heldKarp\<close>, lines 23 to 89. The result is the returned \<open>minDistance\<close> and the new
  content of the reference parameter \<open>bestRoute\<close>.
\<close>

definition heldKarp :: "matrix \<Rightarrow> int \<Rightarrow> int list \<Rightarrow> fault + (real \<times> int list)" where
  "heldKarp graph startNode bestRoute =
     (let n = length graph
      in if 31 \<le> n then Inl Table_Too_Large
         else if startNode < 1 \<or> int n < startNode then Inl Index_Out_Of_Range
         else if \<not> rows_cover graph then Inl Index_Out_Of_Range
         else let s = nat (startNode - 1);
                  dp = dp_table graph s;
                  (minDistance, lastNode) = closing graph dp n s
              in if lastNode < 0 then Inl Negative_Shift
                 else case backtrack graph dp n s (2 ^ n - 1) (nat lastNode) [startNode] of
                        None \<Rightarrow> Inl Non_Termination
                      | Some path \<Rightarrow> Inr (minDistance, rev (path @ [startNode])))"

section \<open>Inputs, paths, cycles and the states of the forward pass\<close>

text \<open>
  A valid input: a square matrix of non-negative entries and a 1-based start location
  in range.
\<close>

definition valid_input :: "matrix \<Rightarrow> int \<Rightarrow> bool" where
  "valid_input graph startNode \<longleftrightarrow>
     list_all (\<lambda>row. length row = length graph \<and> list_all (\<lambda>x. 0 \<le> x) row) graph \<and>
     1 \<le> startNode \<and> startNode \<le> int (length graph)"

definition cost_ok :: "matrix \<Rightarrow> bool" where
  "cost_ok g \<longleftrightarrow> (\<forall>j<length g. \<forall>i<length g. 0 \<le> g ! j ! i)"

text \<open>The locations of a subset, and the cost of walking a list of locations.\<close>

definition members :: "nat \<Rightarrow> nat set" where
  "members subs = {i. bit subs i}"

fun path_cost :: "matrix \<Rightarrow> nat list \<Rightarrow> real" where
  "path_cost g (u # v # p) = g ! u ! v + path_cost g (v # p)"
| "path_cost g [u] = 0"
| "path_cost g [] = 0"

text \<open>
  A simple path from \<open>s\<close> to \<open>i\<close> that visits exactly the locations \<open>V\<close>, and a
  Hamiltonian cycle over \<open>0, ..., n - 1\<close> that begins and ends at \<open>s\<close> (both 0-based).
\<close>

definition simple_path :: "nat \<Rightarrow> nat set \<Rightarrow> nat \<Rightarrow> nat list \<Rightarrow> bool" where
  "simple_path s V i p \<longleftrightarrow> p \<noteq> [] \<and> hd p = s \<and> last p = i \<and> distinct p \<and> set p = V"

definition ham_cycle :: "nat \<Rightarrow> nat \<Rightarrow> nat list \<Rightarrow> bool" where
  "ham_cycle n s c \<longleftrightarrow>
     length c = n + 1 \<and> hd c = s \<and> last c = s \<and>
     distinct (butlast (tl c)) \<and> set (butlast (tl c)) = {0..<n} - {s}"

text \<open>
  The table has \<open>2^n\<close> rows of \<open>n\<close> cells. The invariant of the forward pass: no cell
  exceeds the sentinel, and a cell below it belongs to a subset that holds both the
  start location and the cell's own location.
\<close>

definition wf_table :: "nat \<Rightarrow> table \<Rightarrow> bool" where
  "wf_table n dp \<longleftrightarrow> length dp = 2 ^ n \<and> (\<forall>S<2 ^ n. length (dp ! S) = n)"

definition table_inv :: "nat \<Rightarrow> nat \<Rightarrow> table \<Rightarrow> bool" where
  "table_inv n s dp \<longleftrightarrow>
     wf_table n dp \<and>
     (\<forall>S<2 ^ n. \<forall>i<n. dp ! S ! i \<le> INF_const \<and> (dp ! S ! i < INF_const \<longrightarrow> bit S s \<and> bit S i))"

text \<open>
  The states the loop nest of lines 32 to 45 passes through: the outer loop is at
  subset \<open>k\<close>, the loop over \<open>i\<close> has done \<open>0, ..., a - 1\<close> and the loop over \<open>j\<close> for
  \<open>i = a\<close> has done \<open>0, ..., b - 1\<close>.
\<close>

definition node_upto :: "matrix \<Rightarrow> nat \<Rightarrow> nat \<Rightarrow> nat \<Rightarrow> table \<Rightarrow> table" where
  "node_upto graph subs i b dp =
     (if \<not> bit subs i then dp else fold (\<lambda>j dp. relax graph subs i dp j) [0..<b] dp)"

definition subset_upto :: "matrix \<Rightarrow> nat \<Rightarrow> nat \<Rightarrow> nat \<Rightarrow> table \<Rightarrow> table" where
  "subset_upto graph n subs a dp = fold (\<lambda>i dp. relax_node graph n subs dp i) [0..<a] dp"

definition forward_state :: "matrix \<Rightarrow> nat \<Rightarrow> nat \<Rightarrow> nat \<Rightarrow> nat \<Rightarrow> table \<Rightarrow> table" where
  "forward_state graph n k a b dp =
     node_upto graph k a b (subset_upto graph n k a (forward_upto graph n k dp))"

text \<open>
  The value the loop over \<open>j\<close> leaves in \<open>dp[subset][i]\<close>, from the row \<open>prev\<close> of
  \<open>subset ^ (1 << i)\<close> and the cell's value \<open>v\<close> before the loop; and the row that the
  loop over \<open>i\<close> leaves for a subset.
\<close>

definition relax_val :: "matrix \<Rightarrow> real list \<Rightarrow> nat \<Rightarrow> nat \<Rightarrow> nat \<Rightarrow> real \<Rightarrow> real" where
  "relax_val graph prev m subs i v =
     fold (\<lambda>j v. if \<not> bit subs j \<or> i = j then v else min v (prev ! j + graph ! j ! i)) [0..<m] v"

definition row_of :: "matrix \<Rightarrow> nat \<Rightarrow> table \<Rightarrow> table \<Rightarrow> nat \<Rightarrow> real list" where
  "row_of graph n dp dpi subs =
     map (\<lambda>i. if bit subs i
               then relax_val graph (dp ! (subs XOR 2 ^ i)) n subs i (dpi ! subs ! i)
               else dpi ! subs ! i) [0..<n]"

section \<open>Subsets as bit patterns\<close>

lemma flip_less: "bit (S::nat) i \<Longrightarrow> flip_bit i S < S"
proof (induction i arbitrary: S)
  case 0
  then show ?case by (simp add: flip_bit_0 bit_0 odd_pos)
next
  case (Suc i)
  then have "flip_bit i (S div 2) < S div 2" by (simp add: bit_Suc)
  then have "S mod 2 + 2 * flip_bit i (S div 2) < S mod 2 + 2 * (S div 2)" by simp
  then show ?case by (simp add: flip_bit_Suc)
qed

lemma xor_less: "bit (S::nat) i \<Longrightarrow> S XOR 2 ^ i < S"
  using flip_less [of S i] by (simp add: flip_bit_nat_def)

lemma bit_lt: "(S::nat) < 2 ^ n \<Longrightarrow> bit S i \<Longrightarrow> i < n"
proof (rule ccontr)
  assume a: "S < 2 ^ n" "bit S i" "\<not> i < n"
  then have "(2::nat) ^ n \<le> 2 ^ i" by (simp add: power_increasing)
  with a have "S < 2 ^ i" by linarith
  then have "S div 2 ^ i = 0" by simp
  with a show False by (simp add: bit_iff_odd)
qed

lemma bit_xor_one: "bit ((S::nat) XOR 2 ^ i) j \<longleftrightarrow> (bit S j \<noteq> (j = i))"
  by (auto simp add: bit_xor_iff bit_exp_iff)

lemma bit_full: "bit ((2::nat) ^ n - 1) i \<longleftrightarrow> i < n"
  using bit_mask_iff [where ?'a = nat, of n i] by (simp add: mask_eq_exp_minus_1)

lemma bit_single: "bit ((2::nat) ^ s) i \<longleftrightarrow> i = s"
  by (auto simp add: bit_exp_iff)

lemma eq_single: "(S::nat) = 2 ^ s \<longleftrightarrow> (\<forall>i. bit S i \<longleftrightarrow> i = s)"
  unfolding bit_eq_iff [of S] by (simp add: bit_exp_iff)

lemma relax_val_Suc:
  "relax_val g prev (Suc m) S i v =
     (let w = relax_val g prev m S i v
      in if \<not> bit S m \<or> i = m then w else min w (prev ! m + g ! m ! i))"
  by (simp add: relax_val_def Let_def)

lemma relax_val_0: "relax_val g prev 0 S i v = v"
  by (simp add: relax_val_def)

lemma relax_fold:
  assumes "S < length dp" and "i < length (dp ! S)" and "bit S i"
  shows "fold (\<lambda>j dp. relax g S i dp j) [0..<m] dp
           = dp[S := (dp ! S)[i := relax_val g (dp ! (S XOR 2 ^ i)) m S i (dp ! S ! i)]]"
proof (induction m)
  case 0
  show ?case by (simp add: relax_val_0)
next
  case (Suc m)
  let ?f = "\<lambda>j dp. relax g S i dp j"
  let ?v = "relax_val g (dp ! (S XOR 2 ^ i)) m S i (dp ! S ! i)"
  have ne: "S XOR 2 ^ i \<noteq> S"
    using xor_less [OF assms(3)] by simp
  have "fold ?f [0..<Suc m] dp = relax g S i (fold ?f [0..<m] dp) m"
    by simp
  also have "\<dots> = relax g S i (dp[S := (dp ! S)[i := ?v]]) m"
    by (simp only: Suc)
  also have "\<dots> = dp[S := (dp ! S)[i := relax_val g (dp ! (S XOR 2 ^ i)) (Suc m) S i (dp ! S ! i)]]"
    using assms(1,2) ne by (simp add: relax_def relax_val_Suc Let_def)
  finally show ?case .
qed

lemma relax_node_eq:
  assumes "S < length dp" and "i < length (dp ! S)"
  shows "relax_node g n S dp i =
           (if bit S i
            then dp[S := (dp ! S)[i := relax_val g (dp ! (S XOR 2 ^ i)) n S i (dp ! S ! i)]]
            else dp)"
  using assms by (simp add: relax_node_def relax_fold)

lemma relax_subset_fold:
  assumes "S < length dp" and "length (dp ! S) = n" and "m \<le> n"
  shows "fold (\<lambda>i dp. relax_node g n S dp i) [0..<m] dp
           = dp[S := map (\<lambda>i. if i < m \<and> bit S i
                               then relax_val g (dp ! (S XOR 2 ^ i)) n S i (dp ! S ! i)
                               else dp ! S ! i) [0..<n]]"
  using assms(3)
proof (induction m)
  case 0
  have "map (\<lambda>i. dp ! S ! i) [0..<n] = dp ! S"
    using assms(2) map_nth [of "dp ! S"] by simp
  then show ?case by simp
next
  case (Suc m)
  let ?row = "\<lambda>m. map (\<lambda>i. if i < m \<and> bit S i
                               then relax_val g (dp ! (S XOR 2 ^ i)) n S i (dp ! S ! i)
                               else dp ! S ! i) [0..<n]"
  have IH: "fold (\<lambda>i dp. relax_node g n S dp i) [0..<m] dp = dp[S := ?row m]"
    using Suc by simp
  have m: "m < n" using Suc.prems by simp
  have step: "relax_node g n S (dp[S := ?row m]) m = dp[S := ?row (Suc m)]"
  proof (cases "bit S m")
    case False
    have eq: "?row (Suc m) = ?row m"
      using False by (auto simp add: less_Suc_eq)
    have "relax_node g n S (dp[S := ?row m]) m = dp[S := ?row m]"
      using False assms(1) m by (simp add: relax_node_eq)
    then show ?thesis by (simp only: eq)
  next
    case True
    let ?x = "relax_val g (dp ! (S XOR 2 ^ m)) n S m (dp ! S ! m)"
    have ne: "S XOR 2 ^ m \<noteq> S"
      using xor_less [OF True] by simp
    have eq: "(?row m)[m := ?x] = ?row (Suc m)"
      using m True by (intro nth_equalityI) (auto simp add: nth_list_update less_Suc_eq)
    have "relax_node g n S (dp[S := ?row m]) m = dp[S := (?row m)[m := ?x]]"
      using True assms(1) m ne by (simp add: relax_node_eq)
    then show ?thesis by (simp only: eq)
  qed
  have "fold (\<lambda>i dp. relax_node g n S dp i) [0..<Suc m] dp
          = relax_node g n S (fold (\<lambda>i dp. relax_node g n S dp i) [0..<m] dp) m"
    by simp
  then show ?case by (simp only: IH step)
qed

lemma relax_subset_eq:
  assumes "wf_table n dp" and "S < 2 ^ n"
  shows "relax_subset g n dp S = dp[S := row_of g n dp dp S]"
proof -
  have "map (\<lambda>i. if i < n \<and> bit S i
                  then relax_val g (dp ! (S XOR 2 ^ i)) n S i (dp ! S ! i)
                  else dp ! S ! i) [0..<n] = row_of g n dp dp S"
    unfolding row_of_def by (rule map_cong) simp_all
  then show ?thesis
    using assms relax_subset_fold [of S dp n n g]
    by (simp only: relax_subset_def wf_table_def le_refl)
qed

lemma row_of_cong:
  assumes "\<And>i. i < n \<Longrightarrow> bit S i \<Longrightarrow> dp ! (S XOR 2 ^ i) = dp' ! (S XOR 2 ^ i)"
    and "dpi ! S = dpi' ! S"
  shows "row_of g n dp dpi S = row_of g n dp' dpi' S"
  unfolding row_of_def using assms by (intro map_cong) simp_all

lemma length_row_of: "length (row_of g n dp dpi S) = n"
  by (simp add: row_of_def)

lemma forward_upto_Suc:
  "forward_upto g n (Suc k) dp = relax_subset g n (forward_upto g n k dp) k"
  by (simp add: forward_upto_def)

lemma forward_upto_inv:
  assumes "wf_table n dpi" and "k \<le> 2 ^ n"
  shows "wf_table n (forward_upto g n k dpi) \<and>
         (\<forall>S. k \<le> S \<and> S < 2 ^ n \<longrightarrow> forward_upto g n k dpi ! S = dpi ! S) \<and>
         (\<forall>S<k. forward_upto g n k dpi ! S = row_of g n (forward_upto g n k dpi) dpi S)"
  using assms(2)
proof (induction k)
  case 0
  show ?case using assms(1) by (simp add: forward_upto_def)
next
  case (Suc k)
  let ?dp = "forward_upto g n k dpi"
  let ?dp' = "forward_upto g n (Suc k) dpi"
  have k: "k < 2 ^ n" using Suc.prems by simp
  have wf: "wf_table n ?dp"
    and rest: "\<And>S. k \<le> S \<Longrightarrow> S < 2 ^ n \<Longrightarrow> ?dp ! S = dpi ! S"
    and fin: "\<And>S. S < k \<Longrightarrow> ?dp ! S = row_of g n ?dp dpi S"
    using Suc by simp_all
  have len: "length ?dp = 2 ^ n" using wf by (simp add: wf_table_def)
  have step: "?dp' = ?dp[k := row_of g n ?dp ?dp k]"
    using relax_subset_eq [OF wf k] by (simp add: forward_upto_Suc)
  have other: "\<And>S. S \<noteq> k \<Longrightarrow> ?dp' ! S = ?dp ! S"
    by (simp add: step)
  have below: "\<And>S i. S \<le> k \<Longrightarrow> bit S i \<Longrightarrow> ?dp' ! (S XOR 2 ^ i) = ?dp ! (S XOR 2 ^ i)"
  proof -
    fix S i assume "S \<le> k" and "bit S i"
    then have "S XOR 2 ^ i \<noteq> k" using xor_less [of S i] by simp
    then show "?dp' ! (S XOR 2 ^ i) = ?dp ! (S XOR 2 ^ i)" by (rule other)
  qed
  have "wf_table n ?dp'"
    using wf k unfolding step wf_table_def
    by (auto simp add: nth_list_update length_row_of)
  moreover have "\<forall>S. Suc k \<le> S \<and> S < 2 ^ n \<longrightarrow> ?dp' ! S = dpi ! S"
    using rest other by simp
  moreover have "\<forall>S<Suc k. ?dp' ! S = row_of g n ?dp' dpi S"
  proof (intro allI impI)
    fix S assume S: "S < Suc k"
    show "?dp' ! S = row_of g n ?dp' dpi S"
    proof (cases "S = k")
      case True
      have "?dp' ! k = row_of g n ?dp ?dp k"
        using k len by (simp add: step)
      also have "\<dots> = row_of g n ?dp' dpi k"
        by (rule row_of_cong) (simp_all add: below rest k)
      finally show ?thesis using True by simp
    next
      case False
      then have lt: "S < k" using S by simp
      have "?dp' ! S = ?dp ! S" using False by (rule other)
      also have "\<dots> = row_of g n ?dp dpi S" using lt by (rule fin)
      also have "\<dots> = row_of g n ?dp' dpi S"
        using lt by (intro row_of_cong) (simp_all add: below)
      finally show ?thesis .
    qed
  qed
  ultimately show ?case by blast
qed


section \<open>The invariant of the forward pass\<close>

lemma valid_cost_ok: "valid_input g st \<Longrightarrow> cost_ok g"
  by (auto simp add: valid_input_def cost_ok_def list_all_length)

lemma valid_square: "valid_input g st \<Longrightarrow> j < length g \<Longrightarrow> length (g ! j) = length g"
  by (auto simp add: valid_input_def list_all_length)

lemma nth_update_any:
  "xs[k := v] ! S = (if S = k \<and> k < length xs then v else xs ! S)"
  by (cases "k < length xs") (auto simp add: nth_list_update list_update_beyond)

lemma wf_init: "wf_table n (init_table n s)"
  by (auto simp add: wf_table_def init_table_def Let_def nth_update_any)

lemma init_cell:
  assumes "s < n" and "S < 2 ^ n" and "i < n"
  shows "init_table n s ! S ! i = (if S = 2 ^ s \<and> i = s then 0 else INF_const)"
  using assms by (auto simp add: init_table_def Let_def nth_list_update)

lemma table_inv_init: "s < n \<Longrightarrow> table_inv n s (init_table n s)"
  by (auto simp add: table_inv_def wf_init init_cell INF_const_def bit_exp_iff)

lemma fold_preserves:
  assumes "\<And>x a. x \<in> set xs \<Longrightarrow> P a \<Longrightarrow> P (f x a)" and "P a"
  shows "P (fold f xs a)"
  using assms by (induction xs arbitrary: a) simp_all

lemma table_inv_relax:
  assumes inv: "table_inv n s dp" and ok: "cost_ok g" and n: "n = length g"
    and S: "S < 2 ^ n" and i: "i < n" and bi: "bit S i" and j: "j < n"
  shows "table_inv n s (relax g S i dp j)"
proof (cases "\<not> bit S j \<or> i = j")
  case True
  then show ?thesis using inv by (simp add: relax_def)
next
  case False
  let ?S' = "S XOR 2 ^ i"
  let ?v = "min (dp ! S ! i) (dp ! ?S' ! j + g ! j ! i)"
  have wf: "length dp = 2 ^ n" "\<And>S. S < 2 ^ n \<Longrightarrow> length (dp ! S) = n"
    using inv by (simp_all add: table_inv_def wf_table_def)
  have old: "\<And>S i. S < 2 ^ n \<Longrightarrow> i < n \<Longrightarrow> dp ! S ! i \<le> INF_const"
    "\<And>S i. S < 2 ^ n \<Longrightarrow> i < n \<Longrightarrow> dp ! S ! i < INF_const \<Longrightarrow> bit S s \<and> bit S i"
    using inv by (simp_all add: table_inv_def)
  have S': "?S' < 2 ^ n" using xor_less [OF bi] S by simp
  have c: "0 \<le> g ! j ! i" using ok i j n by (simp add: cost_ok_def)
  have eq: "relax g S i dp j = dp[S := (dp ! S)[i := ?v]]"
    using False by (simp add: relax_def)
  have v1: "?v \<le> INF_const" using old(1) [OF S i] by simp
  have v2: "bit S s \<and> bit S i" if "?v < INF_const"
  proof (cases "dp ! S ! i < INF_const")
    case True
    then show ?thesis using old(2) [OF S i] by simp
  next
    case False
    with that have "dp ! ?S' ! j + g ! j ! i < INF_const" by simp
    with c have "dp ! ?S' ! j < INF_const" by simp
    then have "bit ?S' s" using old(2) [OF S' j] by simp
    then show ?thesis using bi by (auto simp add: bit_xor_one)
  qed
  have cell: "(dp[S := (dp ! S)[i := ?v]]) ! T ! k = (if T = S \<and> k = i then ?v else dp ! T ! k)"
    if "T < 2 ^ n" "k < n" for T k
    using that wf S i by (auto simp add: nth_list_update)
  have "wf_table n (dp[S := (dp ! S)[i := ?v]])"
    using wf by (auto simp add: wf_table_def nth_update_any)
  then show ?thesis
    unfolding eq table_inv_def using cell v1 v2 old by auto
qed

lemma table_inv_node_upto:
  assumes "table_inv n s dp" and "cost_ok g" and "n = length g"
    and "S < 2 ^ n" and "i < n" and "b \<le> n"
  shows "table_inv n s (node_upto g S i b dp)"
proof (cases "bit S i")
  case False
  then show ?thesis using assms(1) by (simp add: node_upto_def)
next
  case True
  have "table_inv n s (fold (\<lambda>j dp. relax g S i dp j) [0..<b] dp)"
    using assms True by (intro fold_preserves [where P = "table_inv n s"] table_inv_relax) simp_all
  with True show ?thesis by (simp add: node_upto_def)
qed

lemma relax_node_upto: "relax_node g n S dp i = node_upto g S i n dp"
  by (simp add: relax_node_def node_upto_def)

lemma table_inv_subset_upto:
  assumes "table_inv n s dp" and "cost_ok g" and "n = length g"
    and "S < 2 ^ n" and "a \<le> n"
  shows "table_inv n s (subset_upto g n S a dp)"
  unfolding subset_upto_def relax_node_upto
  using assms by (intro fold_preserves [where P = "table_inv n s"] table_inv_node_upto) simp_all

lemma relax_subset_upto: "relax_subset g n dp S = subset_upto g n S n dp"
  by (simp add: relax_subset_def subset_upto_def)

lemma table_inv_forward_upto:
  assumes "table_inv n s dp" and "cost_ok g" and "n = length g" and "k \<le> 2 ^ n"
  shows "table_inv n s (forward_upto g n k dp)"
  unfolding forward_upto_def relax_subset_upto
  using assms by (intro fold_preserves [where P = "table_inv n s"] table_inv_subset_upto) simp_all

lemma table_inv_forward_state:
  assumes "table_inv n s dp" and "cost_ok g" and "n = length g"
    and "k < 2 ^ n" and "a < n" and "b \<le> n"
  shows "table_inv n s (forward_state g n k a b dp)"
  unfolding forward_state_def
  using assms by (intro table_inv_node_upto table_inv_subset_upto table_inv_forward_upto) simp_all

section \<open>The recurrence of the finished table\<close>

lemma relax_val_le: "relax_val g prev m S i v \<le> v"
  by (induction m) (simp_all add: relax_val_0 relax_val_Suc Let_def min.coboundedI1)

lemma relax_val_le_edge:
  "j < m \<Longrightarrow> bit S j \<Longrightarrow> j \<noteq> i \<Longrightarrow> relax_val g prev m S i v \<le> prev ! j + g ! j ! i"
  by (induction m) (auto simp add: relax_val_Suc Let_def less_Suc_eq min.coboundedI1)

lemma relax_val_cases:
  "relax_val g prev m S i v = v \<or>
   (\<exists>j<m. bit S j \<and> j \<noteq> i \<and> relax_val g prev m S i v = prev ! j + g ! j ! i)"
proof (induction m)
  case 0
  show ?case by (simp add: relax_val_0)
next
  case (Suc m)
  show ?case
  proof (cases "\<not> bit S m \<or> i = m")
    case True
    then show ?thesis using Suc by (auto simp add: relax_val_Suc Let_def less_Suc_eq)
  next
    case False
    let ?w = "relax_val g prev m S i v"
    show ?thesis
    proof (cases "?w \<le> prev ! m + g ! m ! i")
      case True
      with False have "relax_val g prev (Suc m) S i v = ?w"
        by (simp add: relax_val_Suc Let_def)
      then show ?thesis using Suc by (auto simp add: less_Suc_eq)
    next
      case le: False
      with False have "relax_val g prev (Suc m) S i v = prev ! m + g ! m ! i"
        by (simp add: relax_val_Suc Let_def)
      then show ?thesis using False by auto
    qed
  qed
qed

lemma dp_table_rec:
  assumes "S < 2 ^ length g" and "i < length g"
  shows "dp_table g s ! S ! i =
           (if bit S i
            then relax_val g (dp_table g s ! (S XOR 2 ^ i)) (length g) S i
                   (init_table (length g) s ! S ! i)
            else init_table (length g) s ! S ! i)"
proof -
  let ?n = "length g"
  have "dp_table g s ! S = row_of g ?n (dp_table g s) (init_table ?n s) S"
    using forward_upto_inv [where n = ?n and dpi = "init_table ?n s" and k = "2 ^ ?n" and g = g, OF wf_init] assms(1)
    by (simp add: dp_table_def forward_pass_def)
  then show ?thesis using assms(2) by (simp add: row_of_def)
qed

lemma wf_dp_table: "wf_table (length g) (dp_table g s)"
  using forward_upto_inv [where n = "length g" and dpi = "init_table (length g) s" and k = "2 ^ length g" and g = g, OF wf_init]
  by (simp add: dp_table_def forward_pass_def)

lemma table_inv_dp_table:
  assumes "cost_ok g" and "s < length g"
  shows "table_inv (length g) s (dp_table g s)"
  unfolding dp_table_def forward_pass_def
  using assms by (intro table_inv_forward_upto table_inv_init) simp_all

lemma dp_finite_bits:
  assumes "cost_ok g" and "s < length g" and "S < 2 ^ length g" and "i < length g"
    and "dp_table g s ! S ! i < INF_const"
  shows "bit S s" and "bit S i"
  using table_inv_dp_table [OF assms(1,2)] assms(3,4,5) by (simp_all add: table_inv_def)


lemma dp_le_edge:
  assumes "S < 2 ^ length g" and "bit S i" and "bit S j" and "j \<noteq> i"
  shows "dp_table g s ! S ! i \<le> dp_table g s ! (S XOR 2 ^ i) ! j + g ! j ! i"
proof -
  have "i < length g" "j < length g" using assms bit_lt by blast+
  then show ?thesis
    using dp_table_rec [OF assms(1), of i s] assms(2,3,4) by (simp add: relax_val_le_edge)
qed

lemma dp_cases:
  assumes "s < length g" and "S < 2 ^ length g" and "i < length g"
  shows "dp_table g s ! S ! i = (if S = 2 ^ s \<and> i = s then 0 else INF_const) \<or>
         (bit S i \<and> (\<exists>j<length g. bit S j \<and> j \<noteq> i \<and>
            dp_table g s ! S ! i = dp_table g s ! (S XOR 2 ^ i) ! j + g ! j ! i))"
proof (cases "bit S i")
  case False
  then show ?thesis
    using dp_table_rec [OF assms(2,3), of s] init_cell [OF assms] by simp
next
  case True
  then show ?thesis
    using dp_table_rec [OF assms(2,3), of s] init_cell [OF assms]
      relax_val_cases [of g "dp_table g s ! (S XOR 2 ^ i)" "length g" S i "init_table (length g) s ! S ! i"]
    by auto
qed

lemma dp_base:
  assumes "s < length g"
  shows "dp_table g s ! (2 ^ s) ! s = 0"
proof -
  have S: "(2::nat) ^ s < 2 ^ length g" using assms by simp
  have "\<not> (\<exists>j<length g. bit ((2::nat) ^ s) j \<and> j \<noteq> s)" by (simp add: bit_exp_iff)
  then show ?thesis using dp_cases [OF assms S assms] by auto
qed

lemma dp_start_single:
  assumes "cost_ok g" and "s < length g" and "S < 2 ^ length g"
    and "dp_table g s ! S ! s < INF_const"
  shows "S = 2 ^ s"
proof (rule ccontr)
  assume ne: "S \<noteq> 2 ^ s"
  have bs: "bit S s" using dp_finite_bits(1) [OF assms(1,2,3,2,4)] .
  from dp_cases [OF assms(2,3,2)] ne assms(4)
  obtain j where j: "j < length g" "bit S j" "j \<noteq> s"
    "dp_table g s ! S ! s = dp_table g s ! (S XOR 2 ^ s) ! j + g ! j ! s"
    by auto
  have "0 \<le> g ! j ! s" using assms(1,2) j(1) by (simp add: cost_ok_def)
  with j(4) assms(4) have fin: "dp_table g s ! (S XOR 2 ^ s) ! j < INF_const" by simp
  have "S XOR 2 ^ s < 2 ^ length g" using xor_less [OF bs] assms(3) by simp
  from dp_finite_bits(1) [OF assms(1,2) this j(1) fin]
  show False using bs by (simp add: bit_xor_one)
qed

section \<open>The table holds the cheapest paths\<close>

lemma path_cost_snoc:
  "p \<noteq> [] \<Longrightarrow> path_cost g (p @ [i]) = path_cost g p + g ! last p ! i"
  by (induction g p rule: path_cost.induct) simp_all

lemma members_xor: "bit S i \<Longrightarrow> members (S XOR 2 ^ i) = members S - {i}"
  by (auto simp add: members_def bit_xor_one)

lemma members_single: "members (2 ^ s) = {s}"
  by (auto simp add: members_def bit_exp_iff)

lemma members_full: "members (2 ^ n - 1) = {0..<n}"
proof (rule set_eqI)
  fix i
  show "i \<in> members (2 ^ n - 1) \<longleftrightarrow> i \<in> {0..<n}"
    unfolding members_def mem_Collect_eq bit_full by simp
qed

lemma in_members: "i \<in> members S \<longleftrightarrow> bit S i"
  by (simp add: members_def)

lemma members_eq_single:
  assumes "members S = {s}"
  shows "S = 2 ^ s"
proof -
  have "bit S i \<longleftrightarrow> i = s" for i
    using assms in_members [of i S] by simp
  then show ?thesis by (simp add: eq_single)
qed



lemma dp_sound:
  assumes ok: "cost_ok g" and s: "s < length g"
  shows "S < 2 ^ length g \<Longrightarrow> i < length g \<Longrightarrow> dp_table g s ! S ! i < INF_const \<Longrightarrow>
         \<exists>p. simple_path s (members S) i p \<and> path_cost g p = dp_table g s ! S ! i"
proof (induction S arbitrary: i rule: less_induct)
  case (less S)
  from dp_cases [OF s less.prems(1,2)]
  consider (base) "dp_table g s ! S ! i = (if S = 2 ^ s \<and> i = s then 0 else INF_const)"
    | (step) j where "bit S i" "j < length g" "bit S j" "j \<noteq> i"
        "dp_table g s ! S ! i = dp_table g s ! (S XOR 2 ^ i) ! j + g ! j ! i"
    by blast
  then show ?case
  proof cases
    case base
    with less.prems(3) have *: "S = 2 ^ s" "i = s" "dp_table g s ! S ! i = 0"
      by (simp_all split: if_splits)
    have "simple_path s (members S) i [s]"
      using * by (simp add: simple_path_def members_single)
    then show ?thesis using * by (intro exI [of _ "[s]"]) simp
  next
    case step
    let ?S' = "S XOR 2 ^ i"
    have lt: "?S' < S" using xor_less [OF step(1)] .
    then have S': "?S' < 2 ^ length g" using less.prems(1) by simp
    have "0 \<le> g ! j ! i" using ok step(2) less.prems(2) by (simp add: cost_ok_def)
    with step(5) less.prems(3) have fin: "dp_table g s ! ?S' ! j < INF_const" by simp
    from less.IH [OF lt S' step(2) fin]
    obtain p where p: "simple_path s (members ?S') j p" "path_cost g p = dp_table g s ! ?S' ! j"
      by blast
    have pp: "p \<noteq> []" "hd p = s" "distinct p" "set p = members S - {i}"
      using p(1) by (simp_all add: simple_path_def members_xor [OF step(1)])
    have "i \<in> members S" using step(1) by (simp add: in_members)
    then have "insert i (members S - {i}) = members S" by blast
    then have "simple_path s (members S) i (p @ [i])"
      using pp by (simp add: simple_path_def)
    moreover have "path_cost g (p @ [i]) = dp_table g s ! S ! i"
      using p step(5) by (simp add: path_cost_snoc simple_path_def)
    ultimately show ?thesis by blast
  qed
qed

lemma dp_complete:
  assumes s: "s < length g"
  shows "simple_path s (members S) i p \<Longrightarrow> S < 2 ^ length g \<Longrightarrow>
         dp_table g s ! S ! i \<le> path_cost g p"
proof (induction p arbitrary: S i rule: rev_induct)
  case Nil
  then show ?case by (simp add: simple_path_def)
next
  case (snoc x q)
  have x: "x = i" using snoc.prems(1) by (simp add: simple_path_def)
  show ?case
  proof (cases "q = []")
    case True
    with snoc.prems(1) x have "i = s" "members S = {s}" by (auto simp add: simple_path_def)
    then have "S = 2 ^ s" "i = s" by (simp_all add: members_eq_single)
    then show ?thesis using True x dp_base [OF s] by simp
  next
    case False
    let ?S' = "S XOR 2 ^ i"
    let ?j = "last q"
    have pp: "hd (q @ [i]) = s" "distinct q" "i \<notin> set q" "insert i (set q) = members S"
      using snoc.prems(1) x by (simp_all add: simple_path_def)
    have "i \<in> members S" using pp(4) by blast
    then have bi: "bit S i" by (simp add: in_members)
    have jq: "?j \<in> set q" using False by simp
    then have "?j \<in> members S" using pp(4) by blast
    then have bj: "bit S ?j" by (simp add: in_members)
    have ne: "?j \<noteq> i" using jq pp(3) by blast
    have "set q = members S - {i}" using pp(3,4) by blast
    then have q: "simple_path s (members ?S') ?j q"
      using pp(1,2) False by (simp add: simple_path_def members_xor [OF bi])
    have S': "?S' < 2 ^ length g" using xor_less [OF bi] snoc.prems(2) by simp
    have "dp_table g s ! S ! i \<le> dp_table g s ! ?S' ! ?j + g ! ?j ! i"
      using dp_le_edge [OF snoc.prems(2) bi bj ne] .
    also have "\<dots> \<le> path_cost g q + g ! ?j ! i"
      using snoc.IH [OF q S'] by simp
    also have "\<dots> = path_cost g (q @ [x])"
      using False x by (simp add: path_cost_snoc)
    finally show ?thesis .
  qed
qed


section \<open>Closing the tour and walking back\<close>

lemma closing_fold:
  "(case fold (closing_step g dp c s) [0..<m] (INF_const, - 1) of (v, l) \<Rightarrow>
      v \<le> INF_const \<and>
      (\<forall>i<m. i \<noteq> s \<longrightarrow> v \<le> dp ! (c - 1) ! i + g ! i ! s) \<and>
      ((l = - 1 \<and> v = INF_const) \<or>
       (\<exists>i<m. i \<noteq> s \<and> l = int i \<and> v = dp ! (c - 1) ! i + g ! i ! s \<and> v < INF_const)))"
proof (induction m)
  case 0
  show ?case by simp
next
  case (Suc m)
  obtain v l where vl: "fold (closing_step g dp c s) [0..<m] (INF_const, - 1) = (v, l)"
    by (cases "fold (closing_step g dp c s) [0..<m] (INF_const, - 1)")
  have IH: "v \<le> INF_const"
    "\<And>i. i < m \<Longrightarrow> i \<noteq> s \<Longrightarrow> v \<le> dp ! (c - 1) ! i + g ! i ! s"
    "(l = - 1 \<and> v = INF_const) \<or>
       (\<exists>i<m. i \<noteq> s \<and> l = int i \<and> v = dp ! (c - 1) ! i + g ! i ! s \<and> v < INF_const)"
    using Suc vl by simp_all
  let ?cost = "dp ! (c - 1) ! m + g ! m ! s"
  have step: "fold (closing_step g dp c s) [0..<Suc m] (INF_const, - 1)
                = closing_step g dp c s m (v, l)"
    using vl by simp
  show ?case
  proof (cases "m = s")
    case True
    then have "closing_step g dp c s m (v, l) = (v, l)" by (simp add: closing_step_def)
    then show ?thesis
      unfolding step using IH True by (auto simp add: less_Suc_eq)
  next
    case ne: False
    show ?thesis
    proof (cases "?cost < v")
      case True
      then have "closing_step g dp c s m (v, l) = (?cost, int m)"
        using ne by (simp add: closing_step_def Let_def)
      moreover have "\<And>i. i < m \<Longrightarrow> i \<noteq> s \<Longrightarrow> ?cost \<le> dp ! (c - 1) ! i + g ! i ! s"
        using IH(2) True by force
      ultimately show ?thesis
        unfolding step using IH(1) True ne by (auto simp add: less_Suc_eq)
    next
      case False
      then have "closing_step g dp c s m (v, l) = (v, l)"
        using ne by (simp add: closing_step_def Let_def)
      then show ?thesis
        unfolding step using IH False by (auto simp add: less_Suc_eq)
    qed
  qed
qed

lemma closing_props:
  assumes "closing g dp n s = (v, l)"
  shows "v \<le> INF_const"
    and "\<And>i. i < n \<Longrightarrow> i \<noteq> s \<Longrightarrow> v \<le> dp ! (2 ^ n - 1) ! i + g ! i ! s"
    and "(l = - 1 \<and> v = INF_const) \<or>
         (\<exists>i<n. i \<noteq> s \<and> l = int i \<and> v = dp ! (2 ^ n - 1) ! i + g ! i ! s \<and> v < INF_const)"
  using closing_fold [where g = g and dp = dp and c = "2 ^ n" and s = s and m = n] assms by (simp_all add: closing_def)

lemma find_pred_Some:
  assumes "find_pred g dp n S cur = Some i"
  shows "i < n" and "i \<noteq> cur" and "bit S i"
    and "dp ! S ! cur = dp ! (S XOR 2 ^ cur) ! i + g ! i ! cur"
  using assms by (auto simp add: find_pred_def find_Some_iff)

lemma find_pred_None:
  assumes "find_pred g dp n S cur = None" and "i < n" and "i \<noteq> cur" and "bit S i"
  shows "dp ! S ! cur \<noteq> dp ! (S XOR 2 ^ cur) ! i + g ! i ! cur"
  using assms by (auto simp add: find_pred_def find_None_iff)

lemma find_pred_exists:
  assumes ok: "cost_ok g" and s: "s < length g" and S: "S < 2 ^ length g"
    and cur: "cur < length g" and ne: "cur \<noteq> s"
    and fin: "dp_table g s ! S ! cur < INF_const"
  shows "\<exists>p. find_pred g (dp_table g s) (length g) S cur = Some p \<and>
             dp_table g s ! (S XOR 2 ^ cur) ! p < INF_const"
proof -
  from dp_cases [OF s S cur] ne fin
  obtain j where j: "j < length g" "bit S j" "j \<noteq> cur"
    "dp_table g s ! S ! cur = dp_table g s ! (S XOR 2 ^ cur) ! j + g ! j ! cur"
    by auto
  have "find_pred g (dp_table g s) (length g) S cur \<noteq> None"
    using find_pred_None [where g = g and dp = "dp_table g s" and n = "length g" and S = S and cur = cur and i = j] j by blast
  then obtain p where p: "find_pred g (dp_table g s) (length g) S cur = Some p" by blast
  have "0 \<le> g ! p ! cur"
    using ok cur find_pred_Some(1) [OF p] by (simp add: cost_ok_def)
  then have "dp_table g s ! (S XOR 2 ^ cur) ! p < INF_const"
    using find_pred_Some(4) [OF p] fin by simp
  with p show ?thesis by blast
qed

lemma backtrack_returns:
  assumes ok: "cost_ok g" and s: "s < length g"
  shows "S < 2 ^ length g \<Longrightarrow> cur < length g \<Longrightarrow> dp_table g s ! S ! cur < INF_const \<Longrightarrow>
         \<exists>vs. backtrack g (dp_table g s) (length g) s S cur path
                 = Some (path @ map (\<lambda>v. int v + 1) vs) \<and>
               distinct vs \<and> set vs = members S - {s}"
proof (induction S arbitrary: cur path rule: less_induct)
  case (less S)
  show ?case
  proof (cases "cur = s")
    case True
    then have "S = 2 ^ s" using dp_start_single [OF ok s less.prems(1)] less.prems(3) by simp
    then have "members S - {s} = {}" by (simp add: members_single)
    moreover have "backtrack g (dp_table g s) (length g) s S cur path = Some path"
      using True by (simp add: backtrack.simps)
    ultimately show ?thesis by (intro exI [of _ "[]"]) simp
  next
    case False
    let ?S' = "S XOR 2 ^ cur"
    let ?path' = "path @ [int cur + 1]"
    from find_pred_exists [OF ok s less.prems(1,2) False less.prems(3)]
    obtain p where p: "find_pred g (dp_table g s) (length g) S cur = Some p"
      and fin: "dp_table g s ! ?S' ! p < INF_const"
      by blast
    have bc: "bit S cur" using dp_finite_bits(2) [OF ok s less.prems] .
    have lt: "?S' < S" using xor_less [OF bc] .
    then have S': "?S' < 2 ^ length g" using less.prems(1) by simp
    have pn: "p < length g" using find_pred_Some(1) [OF p] .
    from less.IH [OF lt S' pn fin, of ?path']
    obtain vs where vs: "backtrack g (dp_table g s) (length g) s ?S' p ?path'
          = Some (?path' @ map (\<lambda>v. int v + 1) vs)"
      "distinct vs" "set vs = members ?S' - {s}"
      by blast
    have unf: "backtrack g (dp_table g s) (length g) s S cur path
                 = backtrack g (dp_table g s) (length g) s ?S' p ?path'"
      using False p by (subst backtrack.simps) (simp add: Let_def)
    have "cur \<in> members S" using bc by (simp add: in_members)
    then have "set (cur # vs) = members S - {s}"
      using vs(3) False unfolding members_xor [OF bc] by auto
    moreover have "distinct (cur # vs)"
      using vs(2,3) unfolding members_xor [OF bc] by simp
    moreover have "backtrack g (dp_table g s) (length g) s S cur path
                     = Some (path @ map (\<lambda>v. int v + 1) (cur # vs))"
      using unf vs(1) by simp
    ultimately show ?thesis by blast
  qed
qed

section \<open>Hamiltonian cycles and the result of heldKarp\<close>

lemma ham_cycle_split:
  assumes "ham_cycle n s c" and "2 \<le> n" and "s < n"
  shows "\<exists>p. c = p @ [s] \<and> simple_path s {0..<n} (last p) p \<and> last p \<noteq> s \<and> last p < n"
proof -
  have len: "length c = n + 1" and hd: "hd c = s" and last: "last c = s"
    and dist: "distinct (butlast (tl c))" and set: "set (butlast (tl c)) = {0..<n} - {s}"
    using assms(1) by (simp_all add: ham_cycle_def)
  obtain x xs where cx: "c = x # xs" using len by (cases c) simp_all
  have lxs: "length xs = n" using len cx by simp
  then have xs: "xs \<noteq> []" using assms(2) by (cases xs) simp_all
  have x: "x = s" using hd cx by simp
  have lx: "last xs = s" using last cx xs by simp
  define q where "q = butlast xs"
  have xq: "xs = q @ [s]"
    unfolding q_def using append_butlast_last_id [OF xs] lx by simp
  have dq: "distinct q" and sq: "set q = {0..<n} - {s}"
    using dist set cx by (simp_all add: q_def)
  have "length q = n - 1" using lxs by (simp add: q_def)
  then have qne: "q \<noteq> []" using assms(2) by (cases q) simp_all
  then have "last (s # q) = last q" by simp
  moreover have "last q \<in> set q" using qne by simp
  ultimately have lp: "last (s # q) \<noteq> s" "last (s # q) < n" using sq by simp_all
  have "insert s ({0..<n} - {s}) = {0..<n}" using assms(3) by auto
  then have "simple_path s {0..<n} (last (s # q)) (s # q)"
    using dq sq by (simp add: simple_path_def)
  moreover have "c = (s # q) @ [s]" using cx x xq by simp
  ultimately show ?thesis using lp by blast
qed

lemma ham_cycle_snoc:
  assumes "simple_path s {0..<n} i p"
  shows "ham_cycle n s (p @ [s])"
proof -
  have p: "p \<noteq> []" "hd p = s" "distinct p" "set p = {0..<n}"
    using assms by (simp_all add: simple_path_def)
  then obtain q where q: "p = s # q" by (cases p) auto
  have "length p = n" using distinct_card [OF p(3)] p(4) by simp
  then show ?thesis using p q by (auto simp add: ham_cycle_def)
qed


lemma valid_start:
  assumes "valid_input g st"
  shows "nat (st - 1) < length g" and "int (nat (st - 1)) + 1 = st"
  using assms by (auto simp add: valid_input_def)

lemma members_full_Suc: "members (2 ^ n - Suc 0) = {0..<n}"
  using members_full [of n] by simp

lemma valid_rows_cover: "valid_input g st \<Longrightarrow> rows_cover g"
  by (auto simp add: valid_input_def rows_cover_def Let_def list_all_length)

lemma closing_lower:
  assumes s: "s < length g" and n: "2 \<le> length g"
    and cl: "closing g (dp_table g s) (length g) s = (v, l)"
    and c: "ham_cycle (length g) s c"
  shows "v \<le> path_cost g c"
proof -
  from ham_cycle_split [OF c n s]
  obtain p where p: "c = p @ [s]" "simple_path s {0..<length g} (last p) p"
    "last p \<noteq> s" "last p < length g"
    by blast
  have full: "(2::nat) ^ length g - 1 < 2 ^ length g" by simp
  have "simple_path s (members (2 ^ length g - 1)) (last p) p"
    using p(2) by (simp add: members_full_Suc)
  from dp_complete [OF s this full]
  have "dp_table g s ! (2 ^ length g - 1) ! last p \<le> path_cost g p" .
  moreover have "v \<le> dp_table g s ! (2 ^ length g - 1) ! last p + g ! last p ! s"
    using closing_props(2) [OF cl p(4,3)] .
  moreover have "path_cost g c = path_cost g p + g ! last p ! s"
    using p(1,2) by (simp add: path_cost_snoc simple_path_def)
  ultimately show ?thesis by simp
qed

lemma closing_attained:
  assumes ok: "cost_ok g" and s: "s < length g"
    and cl: "closing g (dp_table g s) (length g) s = (v, l)" and l: "l \<noteq> - 1"
  shows "\<exists>i c. l = int i \<and> i < length g \<and> i \<noteq> s \<and>
               dp_table g s ! (2 ^ length g - 1) ! i < INF_const \<and>
               v = dp_table g s ! (2 ^ length g - 1) ! i + g ! i ! s \<and> v < INF_const \<and>
               ham_cycle (length g) s c \<and> path_cost g c = v"
proof -
  from closing_props(3) [OF cl] l
  obtain i where i: "i < length g" "i \<noteq> s" "l = int i"
    "v = dp_table g s ! (2 ^ length g - 1) ! i + g ! i ! s" "v < INF_const"
    by auto
  have "0 \<le> g ! i ! s" using ok i(1) s by (simp add: cost_ok_def)
  with i(4,5) have fin: "dp_table g s ! (2 ^ length g - 1) ! i < INF_const" by simp
  have full: "(2::nat) ^ length g - 1 < 2 ^ length g" by simp
  from dp_sound [OF ok s full i(1) fin]
  obtain p where p: "simple_path s (members (2 ^ length g - 1)) i p"
    "path_cost g p = dp_table g s ! (2 ^ length g - 1) ! i"
    by blast
  have sp: "simple_path s {0..<length g} i p" using p(1) by (simp add: members_full_Suc)
  have "ham_cycle (length g) s (p @ [s])" using sp by (rule ham_cycle_snoc)
  moreover have "path_cost g (p @ [s]) = v"
    using sp p(2) i(4) by (simp add: path_cost_snoc simple_path_def)
  ultimately show ?thesis using i fin by blast
qed

lemma heldKarp_unfold:
  assumes "valid_input g st" and "length g \<le> 30"
    and "closing g (dp_table g (nat (st - 1))) (length g) (nat (st - 1)) = (v, l)"
  shows "heldKarp g st r =
           (if l < 0 then Inl Negative_Shift
            else case backtrack g (dp_table g (nat (st - 1))) (length g) (nat (st - 1))
                        (2 ^ length g - 1) (nat l) [st] of
                   None \<Rightarrow> Inl Non_Termination
                 | Some path \<Rightarrow> Inr (v, rev (path @ [st])))"
  using assms valid_rows_cover [OF assms(1)]
  by (simp add: heldKarp_def Let_def valid_input_def)

lemma heldKarp_no_tour:
  assumes "valid_input g st" and "length g \<le> 30"
    and "closing g (dp_table g (nat (st - 1))) (length g) (nat (st - 1)) = (v, - 1)"
  shows "heldKarp g st r = Inl Negative_Shift"
  using heldKarp_unfold [OF assms] by simp

lemma heldKarp_success:
  assumes v: "valid_input g st" and n: "length g \<le> 30"
    and cl: "closing g (dp_table g (nat (st - 1))) (length g) (nat (st - 1)) = (v, l)"
    and l: "l \<noteq> - 1"
  shows "\<exists>vs. heldKarp g st r = Inr (v, st # rev (map (\<lambda>v. int v + 1) vs) @ [st]) \<and>
              distinct vs \<and> set vs = {0..<length g} - {nat (st - 1)}"
proof -
  let ?s = "nat (st - 1)"
  have ok: "cost_ok g" using v by (rule valid_cost_ok)
  have s: "?s < length g" using valid_start(1) [OF v] .
  from closing_attained [OF ok s cl l]
  obtain i where i: "l = int i" "i < length g"
    "dp_table g ?s ! (2 ^ length g - 1) ! i < INF_const"
    by blast
  have full: "(2::nat) ^ length g - 1 < 2 ^ length g" by simp
  from backtrack_returns [where path = "[st]", OF ok s full i(2,3)]
  obtain vs where vs: "backtrack g (dp_table g ?s) (length g) ?s (2 ^ length g - 1) i [st]
        = Some ([st] @ map (\<lambda>v. int v + 1) vs)"
    "distinct vs" "set vs = members (2 ^ length g - 1) - {?s}"
    by blast
  have "heldKarp g st r = Inr (v, st # rev (map (\<lambda>v. int v + 1) vs) @ [st])"
    using heldKarp_unfold [OF v n cl, of r] i(1) vs(1) by simp
  then show ?thesis using vs(2,3) by (auto simp add: members_full_Suc)
qed

section \<open>Routes, monotonicity and the order of the pass\<close>




lemma path_cost_mono:
  assumes "\<And>u v. u \<in> set c \<Longrightarrow> v \<in> set c \<Longrightarrow> g ! u ! v \<le> g' ! u ! v"
  shows "path_cost g c \<le> path_cost g' c"
  using assms
proof (induction g c rule: path_cost.induct)
  case (1 g u v p)
  have "g ! u ! v \<le> g' ! u ! v" using "1.prems" by simp
  moreover have "path_cost g (v # p) \<le> path_cost g' (v # p)"
    using "1.IH" "1.prems" by simp
  ultimately show ?case by simp
qed simp_all

lemma ham_cycle_nodes:
  assumes "ham_cycle n s c" and "2 \<le> n" and "s < n"
  shows "set c \<subseteq> {0..<n}"
proof -
  from ham_cycle_split [OF assms]
  obtain p where "c = p @ [s]" "simple_path s {0..<n} (last p) p" by blast
  then show ?thesis using assms(3) by (auto simp add: simple_path_def)
qed

lemma valid_update:
  assumes "valid_input g st" and "j < length g" and "i < length g" and "g ! j ! i \<le> x"
  shows "valid_input (g[j := (g ! j)[i := x]]) st"
proof -
  define g' where "g' = g[j := (g ! j)[i := x]]"
  have sq: "\<And>k. k < length g \<Longrightarrow> length (g ! k) = length g"
    and nn: "\<And>k m. k < length g \<Longrightarrow> m < length g \<Longrightarrow> 0 \<le> g ! k ! m"
    and st: "1 \<le> st" "st \<le> int (length g)"
    using assms(1) by (auto simp add: valid_input_def list_all_length)
  have x: "0 \<le> x" using nn [OF assms(2,3)] assms(4) by simp
  have len: "length g' = length g" by (simp add: g'_def)
  have row: "length (g' ! k) = length g" if "k < length g" for k
    using that sq by (simp add: g'_def nth_update_any)
  have cell: "0 \<le> g' ! k ! m" if "k < length g" "m < length g" for k m
    using that nn x by (simp add: g'_def nth_update_any)
  have "valid_input g' st"
    using len row cell st by (simp add: valid_input_def list_all_length)
  then show ?thesis by (simp add: g'_def)
qed

lemma heldKarp_Inr:
  assumes "valid_input g st" and "heldKarp g st r = Inr (cost, route)"
  obtains l where "length g \<le> 30"
    and "closing g (dp_table g (nat (st - 1))) (length g) (nat (st - 1)) = (cost, l)"
    and "l \<noteq> - 1" and "2 \<le> length g"
proof -
  let ?s = "nat (st - 1)"
  obtain v l where cl: "closing g (dp_table g ?s) (length g) ?s = (v, l)"
    by (cases "closing g (dp_table g ?s) (length g) ?s")
  have n: "length g \<le> 30"
    using assms(2) by (auto simp add: heldKarp_def Let_def split: if_splits)
  have l: "\<not> l < 0" and "v = cost"
    using heldKarp_unfold [OF assms(1) n cl, of r] assms(2)
    by (auto split: if_splits option.splits)
  then have l1: "l \<noteq> - 1" by simp
  from closing_props(3) [OF cl] l1 obtain i where "i < length g" "i \<noteq> ?s" by auto
  moreover have "?s < length g" using valid_start(1) [OF assms(1)] .
  ultimately have "2 \<le> length g" by linarith
  then show ?thesis using that n cl l1 \<open>v = cost\<close> by simp
qed




section \<open>The properties of the specification\<close>













text \<open>
  C5: when no finite cost closes the tour, the solver should report NoTourFound. Here
  every closing cost is the sentinel or more: the search of lines 48 to 57 leaves
  \<open>minDistance = INF\<close> and \<open>lastNode = -1\<close>, and the reconstruction then shifts by
  \<open>-1\<close> and reads \<open>dp[subset][-1]\<close>.
\<close>

theorem no_tour_runs_into_reconstruction:
  "closing [[0, 2147483647], [2147483647, 0]]
           (dp_table [[0, 2147483647], [2147483647, 0]] 0) 2 0 = (INF_const, - 1) \<and>
   heldKarp [[0, 2147483647], [2147483647, 0]] 1 [] = Inl Negative_Shift"
  by code_simp

text \<open>
  C6: for one location the route should be \<open>[start, start]\<close> with cost 0. The search
  of lines 48 to 57 skips the only location, so \<open>lastNode\<close> stays \<open>-1\<close> and the
  reconstruction is entered with it.
\<close>

theorem single_location_runs_into_reconstruction:
  "closing [[0]] (dp_table [[0]] 0) 1 0 = (INF_const, - 1) \<and>
   heldKarp [[0]] 1 [] = Inl Negative_Shift"
  by code_simp




text \<open>
  C8: increasing one entry of a valid matrix never makes \<open>heldKarp\<close> return less than
  before: the call on the new matrix returns a cost that is at least the former one,
  or it finds no tour below the sentinel any more and returns nothing.
\<close>

theorem heldKarp_monotone:
  assumes "valid_input graph startNode"
    and "j < length graph" and "i < length graph" and "graph ! j ! i \<le> x"
    and "heldKarp graph startNode bestRoute = Inr (cost, route)"
  shows "(\<exists>cost' route'.
            heldKarp (graph[j := (graph ! j)[i := x]]) startNode bestRoute = Inr (cost', route') \<and>
            cost \<le> cost') \<or>
         heldKarp (graph[j := (graph ! j)[i := x]]) startNode bestRoute = Inl Negative_Shift"
proof -
  let ?g' = "graph[j := (graph ! j)[i := x]]"
  let ?s = "nat (startNode - 1)"
  have v': "valid_input ?g' startNode" using valid_update [OF assms(1,2,3,4)] .
  have len: "length ?g' = length graph" by simp
  from heldKarp_Inr [OF assms(1,5)]
  obtain l where n: "length graph \<le> 30" "2 \<le> length graph"
    and cl: "closing graph (dp_table graph ?s) (length graph) ?s = (cost, l)"
    by blast
  have s: "?s < length graph" using valid_start(1) [OF assms(1)] .
  obtain v' l' where cl': "closing ?g' (dp_table ?g' ?s) (length ?g') ?s = (v', l')"
    by (cases "closing ?g' (dp_table ?g' ?s) (length ?g') ?s")
  show ?thesis
  proof (cases "l' = - 1")
    case True
    have "heldKarp ?g' startNode bestRoute = Inl Negative_Shift"
      using heldKarp_no_tour [OF v' _ cl' [unfolded True]] n(1) by simp
    then show ?thesis by simp
  next
    case False
    have n': "length ?g' \<le> 30" using n(1) by simp
    from heldKarp_success [OF v' n' cl' False, of bestRoute]
    obtain route' where r: "heldKarp ?g' startNode bestRoute = Inr (v', route')" by blast
    have s': "?s < length ?g'" using s by simp
    from closing_attained [OF valid_cost_ok [OF v'] s' cl' False]
    obtain c where c: "ham_cycle (length ?g') ?s c" "path_cost ?g' c = v'" by blast
    have c0: "ham_cycle (length graph) ?s c" using c(1) by simp
    have nodes: "set c \<subseteq> {0..<length graph}" using ham_cycle_nodes [OF c0 n(2) s] .
    have "graph ! u ! w \<le> ?g' ! u ! w" if "u \<in> set c" "w \<in> set c" for u w
    proof -
      have u: "u < length graph" and w: "w < length graph" using that nodes by auto
      have "length (graph ! u) = length graph" using valid_square [OF assms(1) u] .
      then show ?thesis using u w assms(4) by (simp add: nth_update_any)
    qed
    then have "path_cost graph c \<le> path_cost ?g' c" by (rule path_cost_mono)
    moreover have "cost \<le> path_cost graph c" using closing_lower [OF s n(2) cl c0] .
    ultimately have "cost \<le> v'" using c(2) by simp
    with r show ?thesis by blast
  qed
qed

theorem heldKarp_monotone_witness:
  "valid_input [[0, 2], [1, 0]] 1 \<and>
   heldKarp [[0, 2], [1, 0]] 1 [] = Inr (3, [1, 2, 1]) \<and>
   heldKarp [[0, 5], [1, 0]] 1 [] = Inr (6, [1, 2, 1]) \<and>
   ((\<exists>cost' route'. heldKarp [[0, 5], [1, 0]] 1 [] = Inr (cost', route') \<and> 3 \<le> cost') \<or>
    heldKarp [[0, 5], [1, 0]] 1 [] = Inl Negative_Shift)"
proof -
  let ?G = "[[0, 2], [1, 0]] :: matrix"
  have v: "valid_input ?G 1" by (simp add: valid_input_def)
  have j: "(0::nat) < length ?G" and i: "(1::nat) < length ?G" and x: "?G ! 0 ! 1 \<le> 5"
    by simp_all
  have e: "heldKarp ?G 1 [] = Inr (3, [1, 2, 1])" by code_simp
  have e': "heldKarp [[0, 5], [1, 0]] 1 [] = Inr (6, [1, 2, 1])" by code_simp
  have u: "?G[0 := (?G ! 0)[1 := 5]] = [[0, 5], [1, 0]]" by simp
  show ?thesis
    using v e e' heldKarp_monotone [OF v j i x e, unfolded u] by blast
qed



text \<open>
  C10, as stated (for any matrix the solver is given): a cell below the sentinel
  belongs to a subset that holds the start location. With a negative entry
  \<open>INF + graph[j][i]\<close> drops below \<open>INF\<close>: here \<open>dp[{1, 2}][1]\<close> is below the sentinel
  although the start location 0 is not in \<open>{1, 2}\<close>.
\<close>

theorem finite_cell_without_start:
  "dp_table [[0, 1, 1], [1, 0, 1], [1, - 1, 0]] 0 ! 6 ! 1 < INF_const \<and> \<not> bit (6::nat) 0"
  by code_simp

text \<open>
  C10, amended: when no entry of the matrix is negative, in every state of the forward
  pass (the outer loop at subset \<open>k\<close>, the loop over \<open>i\<close> at \<open>a\<close>, the loop over \<open>j\<close> at
  \<open>b\<close>) and in the finished table, a cell below the sentinel belongs to a subset that
  holds the start location and the cell's own location, and every cell of a subset
  without the start location holds the sentinel.
\<close>

theorem finite_cells_hold_start:
  assumes "valid_input graph startNode"
    and "k < 2 ^ length graph" and "a < length graph" and "b \<le> length graph"
    and "dp = forward_state graph (length graph) k a b
                (init_table (length graph) (nat (startNode - 1)))
         \<or> dp = dp_table graph (nat (startNode - 1))"
    and "S < 2 ^ length graph" and "i < length graph"
  shows "(dp ! S ! i < INF_const \<longrightarrow> bit S (nat (startNode - 1)) \<and> bit S i) \<and>
         (\<not> bit S (nat (startNode - 1)) \<longrightarrow> dp ! S ! i = INF_const)"
proof -
  let ?n = "length graph" and ?s = "nat (startNode - 1)"
  have ok: "cost_ok graph" using assms(1) by (rule valid_cost_ok)
  have s: "?s < ?n" using valid_start(1) [OF assms(1)] .
  have "table_inv ?n ?s (forward_state graph ?n k a b (init_table ?n ?s))"
    using table_inv_forward_state [OF table_inv_init [OF s] ok refl assms(2,3,4)] .
  moreover have "table_inv ?n ?s (dp_table graph ?s)"
    using table_inv_dp_table [OF ok s] .
  ultimately have "table_inv ?n ?s dp" using assms(5) by blast
  then have "dp ! S ! i \<le> INF_const"
    and "dp ! S ! i < INF_const \<Longrightarrow> bit S ?s \<and> bit S i"
    using assms(6,7) by (simp_all add: table_inv_def)
  then show ?thesis by fastforce
qed

theorem finite_cells_hold_start_witness:
  "valid_input [[0, 2], [1, 0]] 1 \<and>
   forward_state [[0, 2], [1, 0]] 2 3 1 1 (init_table 2 0) ! 2 ! 1 = INF_const"
proof -
  let ?G = "[[0, 2], [1, 0]] :: matrix"
  let ?dp = "forward_state ?G (length ?G) 3 1 1 (init_table (length ?G) (nat (1 - 1)))"
  have v: "valid_input ?G 1" by (simp add: valid_input_def)
  have k: "(3::nat) < 2 ^ length ?G" and a: "(1::nat) < length ?G"
    and b: "(1::nat) \<le> length ?G" and S: "(2::nat) < 2 ^ length ?G"
    by simp_all
  have d: "?dp = ?dp \<or> ?dp = dp_table ?G (nat (1 - 1))" by simp
  have len: "length ?G = 2" by simp
  have e: "?dp = forward_state ?G 2 3 1 1 (init_table 2 0)" unfolding len by simp
  have "\<not> bit (2::nat) (nat (1 - 1)) \<longrightarrow> ?dp ! 2 ! 1 = INF_const"
    using finite_cells_hold_start [OF v k a b d S a] by blast
  then show ?thesis using v unfolding e by simp
qed

end
